theory Spec2Isabelle
  imports Main
begin

section \<open>The standard containers behind the accumulators\<close>

text \<open>
  \<^verbatim>\<open>concurrent_containers.h\<close> wraps a \<^verbatim>\<open>std::unordered_map<K, V, H, E>\<close> and a
  \<^verbatim>\<open>std::unordered_set<T, H, E>\<close>. Both are node-based hash containers: the hash \<^verbatim>\<open>H\<close>
  only decides in which bucket a node is looked for, so the entries a container holds are
  those of its node list, searched by key equality. The node list is modelled as a HOL
  list: a pair list for the map, an element list for the set. The key equality \<^verbatim>\<open>E\<close> is
  taken to be equality of the key type (the default \<^verbatim>\<open>std::equal_to\<close>). The iteration
  order of the real containers is unspecified; new nodes are put at the end here, and
  the properties below are stated through \<open>set\<close>, \<open>map_of\<close>, \<open>distinct\<close>, \<open>count_list\<close>
  and \<open>length\<close> only. Running out of memory is not modelled.
\<close>

type_synonym ('k, 'v) unordered_map = "('k \<times> 'v) list"

type_synonym 't unordered_set = "'t list"

text \<open>
  \<^verbatim>\<open>m.insert_or_assign(key, value)\<close>: when a node with an equal key exists its mapped value
  is assigned (the node keeps its key and its place), otherwise a new node is added.
\<close>

fun um_insert_or_assign :: "'k \<Rightarrow> 'v \<Rightarrow> ('k, 'v) unordered_map \<Rightarrow> ('k, 'v) unordered_map" where
  "um_insert_or_assign key val [] = [(key, val)]"
| "um_insert_or_assign key val (p # ps) =
     (if fst p = key then (fst p, val) # ps else p # um_insert_or_assign key val ps)"

definition um_empty :: "('k, 'v) unordered_map \<Rightarrow> bool" where
  "um_empty d = (case d of [] \<Rightarrow> True | _ # _ \<Rightarrow> False)"

text \<open>\<^verbatim>\<open>size_t size()\<close>: the number of nodes, a natural number (a container that fits in
  memory has fewer than \<open>2 ^ 64\<close> nodes).\<close>

definition um_size :: "('k, 'v) unordered_map \<Rightarrow> nat" where
  "um_size d = length d"

text \<open>
  The move constructor, which \<^verbatim>\<open>return std::move(m_data);\<close> runs to build the returned
  container. It takes over the whole node list in constant time and leaves the source
  without nodes, as the implementations of the standard library do and as the header's
  comments rely on (\<^verbatim>\<open>moves data out, resets container\<close>). The result is the pair of the
  new container and the moved-from source.
\<close>

definition um_move :: "('k, 'v) unordered_map \<Rightarrow> ('k, 'v) unordered_map \<times> ('k, 'v) unordered_map" where
  "um_move d = (d, [])"

text \<open>\<^verbatim>\<open>s.insert(value)\<close>: a new node is added only when no node holds an equal value.\<close>

fun us_insert :: "'t \<Rightarrow> 't unordered_set \<Rightarrow> 't unordered_set" where
  "us_insert x [] = [x]"
| "us_insert x (y # ys) = (if y = x then y # ys else y # us_insert x ys)"

definition us_empty :: "'t unordered_set \<Rightarrow> bool" where
  "us_empty d = (case d of [] \<Rightarrow> True | _ # _ \<Rightarrow> False)"

definition us_size :: "'t unordered_set \<Rightarrow> nat" where
  "us_size d = length d"

definition us_move :: "'t unordered_set \<Rightarrow> 't unordered_set \<times> 't unordered_set" where
  "us_move d = (d, [])"

section \<open>The mutex and the lock guard\<close>

text \<open>
  Every object of the two classes has a \<^verbatim>\<open>std::mutex m_mutex\<close>: \<open>True\<close> when some call
  holds it. \<open>lock\<close> is the constructor of \<^verbatim>\<open>std::lock_guard\<close>: it takes the mutex when it is
  free, and otherwise does not return (\<open>None\<close>) as long as nobody releases it. \<open>unlock\<close> is
  the guard's destructor, which runs when the method's body is left.
\<close>

record lockable =
  m_mutex :: bool

definition lock :: "'a lockable_scheme \<Rightarrow> 'a lockable_scheme option" where
  "lock s = (if m_mutex s then None else Some (s\<lparr>m_mutex := True\<rparr>))"

definition unlock :: "'a lockable_scheme \<Rightarrow> 'a lockable_scheme" where
  "unlock s = s\<lparr>m_mutex := False\<rparr>"

text \<open>A method body \<^verbatim>\<open>{ std::lock_guard lock(m_mutex); body }\<close> called when no other
  thread runs: the guard is taken, the body runs to its result, the guard is released.\<close>

definition lock_guard ::
  "('a lockable_scheme \<Rightarrow> 'r \<times> 'a lockable_scheme) \<Rightarrow> 'a lockable_scheme
     \<Rightarrow> ('r \<times> 'a lockable_scheme) option" where
  "lock_guard body s =
     (case lock s of
        None \<Rightarrow> None
      | Some s1 \<Rightarrow> (case body s1 of (r, s2) \<Rightarrow> Some (r, unlock s2)))"

section \<open>The two classes\<close>

text \<open>Both classes have the same two members, \<^verbatim>\<open>m_data\<close> and \<^verbatim>\<open>m_mutex\<close>; they differ in
  the type of \<^verbatim>\<open>m_data\<close>. Their methods \<^verbatim>\<open>empty\<close>, \<^verbatim>\<open>size\<close> and \<^verbatim>\<open>consume\<close> have the same names
  in both; here those of the map end in \<open>_map\<close> and those of the set in \<open>_set\<close>, and
  \<^verbatim>\<open>insert\<close> of the set is \<open>insert_value\<close>.\<close>

record 'c accumulator = lockable +
  m_data :: 'c

type_synonym ('k, 'v) concurrent_unordered_map = "('k, 'v) unordered_map accumulator"

type_synonym 't concurrent_unordered_set = "'t unordered_set accumulator"

subsection \<open>\<^verbatim>\<open>concurrent_unordered_map\<close>\<close>

text \<open>The defaulted constructor: an empty \<^verbatim>\<open>m_data\<close>, a free \<^verbatim>\<open>m_mutex\<close>.\<close>

definition new_map :: "('k, 'v) concurrent_unordered_map" where
  "new_map = \<lparr>m_mutex = False, m_data = []\<rparr>"

text \<open>The statements under the guard, as functions from the object to the returned
  value and the object after them.\<close>

definition insert_or_assign_body ::
  "'k \<Rightarrow> 'v \<Rightarrow> ('k, 'v) concurrent_unordered_map \<Rightarrow> unit \<times> ('k, 'v) concurrent_unordered_map" where
  "insert_or_assign_body key val s = ((), s\<lparr>m_data := um_insert_or_assign key val (m_data s)\<rparr>)"

definition empty_map_body ::
  "('k, 'v) concurrent_unordered_map \<Rightarrow> bool \<times> ('k, 'v) concurrent_unordered_map" where
  "empty_map_body s = (um_empty (m_data s), s)"

definition size_map_body ::
  "('k, 'v) concurrent_unordered_map \<Rightarrow> nat \<times> ('k, 'v) concurrent_unordered_map" where
  "size_map_body s = (um_size (m_data s), s)"

definition consume_map_body ::
  "('k, 'v) concurrent_unordered_map \<Rightarrow> ('k, 'v) unordered_map \<times> ('k, 'v) concurrent_unordered_map" where
  "consume_map_body s = (case um_move (m_data s) of (ret, src) \<Rightarrow> (ret, s\<lparr>m_data := src\<rparr>))"

text \<open>The four methods.\<close>

definition insert_or_assign ::
  "'k \<Rightarrow> 'v \<Rightarrow> ('k, 'v) concurrent_unordered_map
     \<Rightarrow> (unit \<times> ('k, 'v) concurrent_unordered_map) option" where
  "insert_or_assign key val = lock_guard (insert_or_assign_body key val)"

definition empty_map ::
  "('k, 'v) concurrent_unordered_map \<Rightarrow> (bool \<times> ('k, 'v) concurrent_unordered_map) option" where
  "empty_map = lock_guard empty_map_body"

definition size_map ::
  "('k, 'v) concurrent_unordered_map \<Rightarrow> (nat \<times> ('k, 'v) concurrent_unordered_map) option" where
  "size_map = lock_guard size_map_body"

definition consume_map ::
  "('k, 'v) concurrent_unordered_map
     \<Rightarrow> (('k, 'v) unordered_map \<times> ('k, 'v) concurrent_unordered_map) option" where
  "consume_map = lock_guard consume_map_body"

subsection \<open>\<^verbatim>\<open>concurrent_unordered_set\<close>\<close>

definition new_set :: "'t concurrent_unordered_set" where
  "new_set = \<lparr>m_mutex = False, m_data = []\<rparr>"

definition insert_body ::
  "'t \<Rightarrow> 't concurrent_unordered_set \<Rightarrow> unit \<times> 't concurrent_unordered_set" where
  "insert_body x s = ((), s\<lparr>m_data := us_insert x (m_data s)\<rparr>)"

definition empty_set_body :: "'t concurrent_unordered_set \<Rightarrow> bool \<times> 't concurrent_unordered_set" where
  "empty_set_body s = (us_empty (m_data s), s)"

definition size_set_body :: "'t concurrent_unordered_set \<Rightarrow> nat \<times> 't concurrent_unordered_set" where
  "size_set_body s = (us_size (m_data s), s)"

definition consume_set_body ::
  "'t concurrent_unordered_set \<Rightarrow> 't unordered_set \<times> 't concurrent_unordered_set" where
  "consume_set_body s = (case us_move (m_data s) of (ret, src) \<Rightarrow> (ret, s\<lparr>m_data := src\<rparr>))"

text \<open>\<^verbatim>\<open>insert(T const&)\<close> and \<^verbatim>\<open>insert(T&&)\<close> put the same value into the set; they differ
  in how the new node's element is constructed (copied or moved), which the model of
  values does not see. \<open>insert_value\<close> stands for both.\<close>

definition insert_value ::
  "'t \<Rightarrow> 't concurrent_unordered_set \<Rightarrow> (unit \<times> 't concurrent_unordered_set) option" where
  "insert_value x = lock_guard (insert_body x)"

definition empty_set ::
  "'t concurrent_unordered_set \<Rightarrow> (bool \<times> 't concurrent_unordered_set) option" where
  "empty_set = lock_guard empty_set_body"

definition size_set ::
  "'t concurrent_unordered_set \<Rightarrow> (nat \<times> 't concurrent_unordered_set) option" where
  "size_set = lock_guard size_set_body"

definition consume_set ::
  "'t concurrent_unordered_set \<Rightarrow> ('t unordered_set \<times> 't concurrent_unordered_set) option" where
  "consume_set = lock_guard consume_set_body"

section \<open>Calls and sequences of calls\<close>

text \<open>A call of a method of either class, and what it returns: nothing, a \<^verbatim>\<open>bool\<close>, a
  \<^verbatim>\<open>size_t\<close> or the container that \<^verbatim>\<open>consume\<close> hands over.\<close>

datatype ('k, 'v) map_call = InsertOrAssign 'k 'v | EmptyMap | SizeMap | ConsumeMap

datatype 't set_call = Insert 't | EmptySet | SizeSet | ConsumeSet

datatype 'c result = Void | Bool bool | Size nat | Container 'c

fun map_body ::
  "('k, 'v) map_call \<Rightarrow> ('k, 'v) concurrent_unordered_map
     \<Rightarrow> ('k, 'v) unordered_map result \<times> ('k, 'v) concurrent_unordered_map" where
  "map_body (InsertOrAssign key val) s = (case insert_or_assign_body key val s of (u, s') \<Rightarrow> (Void, s'))"
| "map_body EmptyMap s = (case empty_map_body s of (b, s') \<Rightarrow> (Bool b, s'))"
| "map_body SizeMap s = (case size_map_body s of (n, s') \<Rightarrow> (Size n, s'))"
| "map_body ConsumeMap s = (case consume_map_body s of (d, s') \<Rightarrow> (Container d, s'))"

fun set_body ::
  "'t set_call \<Rightarrow> 't concurrent_unordered_set \<Rightarrow> 't unordered_set result \<times> 't concurrent_unordered_set" where
  "set_body (Insert x) s = (case insert_body x s of (u, s') \<Rightarrow> (Void, s'))"
| "set_body EmptySet s = (case empty_set_body s of (b, s') \<Rightarrow> (Bool b, s'))"
| "set_body SizeSet s = (case size_set_body s of (n, s') \<Rightarrow> (Size n, s'))"
| "set_body ConsumeSet s = (case consume_set_body s of (d, s') \<Rightarrow> (Container d, s'))"

text \<open>A caller that makes the calls of a list one after the other, each call starting
  when the one before it has returned, and drops what they return. \<open>None\<close>: some call
  did not return. \<open>body\<close> gives the statement under the guard for each call.\<close>

fun calls ::
  "('c \<Rightarrow> 'a lockable_scheme \<Rightarrow> 'r \<times> 'a lockable_scheme) \<Rightarrow> 'c list
     \<Rightarrow> 'a lockable_scheme \<Rightarrow> 'a lockable_scheme option" where
  "calls body [] s = Some s"
| "calls body (c # cs) s =
     (case lock_guard (body c) s of None \<Rightarrow> None | Some (r, s') \<Rightarrow> calls body cs s')"

text \<open>The accumulation phase of a round, in the order in which the calls take the
  guard: one \<^verbatim>\<open>insert_or_assign\<close> per pair, one \<^verbatim>\<open>insert\<close> per value.\<close>

fun insert_or_assign_all ::
  "('k \<times> 'v) list \<Rightarrow> ('k, 'v) concurrent_unordered_map
     \<Rightarrow> ('k, 'v) concurrent_unordered_map option" where
  "insert_or_assign_all [] s = Some s"
| "insert_or_assign_all (kv # kvs) s =
     (case insert_or_assign (fst kv) (snd kv) s of
        None \<Rightarrow> None
      | Some (u, s') \<Rightarrow> insert_or_assign_all kvs s')"

fun insert_all ::
  "'t list \<Rightarrow> 't concurrent_unordered_set \<Rightarrow> 't concurrent_unordered_set option" where
  "insert_all [] s = Some s"
| "insert_all (x # xs) s =
     (case insert_value x s of None \<Rightarrow> None | Some (u, s') \<Rightarrow> insert_all xs s')"

text \<open>One \<^verbatim>\<open>insert_or_assign\<close> on a node list, the pair as one argument: \<open>fold put kvs d\<close>
  is the node list after the writes of \<open>kvs\<close>, first to last.\<close>

definition put :: "'k \<times> 'v \<Rightarrow> ('k, 'v) unordered_map \<Rightarrow> ('k, 'v) unordered_map" where
  "put kv d = um_insert_or_assign (fst kv) (snd kv) d"

section \<open>Threads calling the methods of one accumulator\<close>

text \<open>
  Where a thread is with respect to the accumulator: outside any method (\<open>Idle\<close>); in a
  method, at the constructor of the lock guard (\<open>Waiting\<close>, with the call); past it, at
  the statement under the guard (\<open>Locked\<close>); past that statement, with the value to
  return, at the destructor of the lock guard (\<open>Leaving\<close>). From \<open>Locked\<close> to the end of
  \<open>Leaving\<close> the thread is in its critical section.
\<close>

datatype ('c, 'r) pc = Idle | Waiting 'c | Locked 'c | Leaving 'r

fun in_critical :: "('c, 'r) pc \<Rightarrow> bool" where
  "in_critical Idle = False"
| "in_critical (Waiting c) = False"
| "in_critical (Locked c) = True"
| "in_critical (Leaving r) = True"

text \<open>The threads are numbered from \<open>0\<close>; the state of the whole is the accumulator and
  the list of where each thread is. \<open>holders\<close> counts the threads in their critical
  sections.\<close>

definition holders :: "('c, 'r) pc list \<Rightarrow> nat" where
  "holders pcs = length (filter in_critical pcs)"

datatype action = Call | Acquire | Access | Release

text \<open>
  One step of one thread \<open>i\<close>, the threads interleaved in any order. \<open>body\<close> gives the
  statement under the guard for each call (\<open>map_body\<close> or \<open>set_body\<close>). A thread takes the
  guard only when \<open>lock\<close> succeeds, that is when \<^verbatim>\<open>m_mutex\<close> is free; until then it stays
  \<open>Waiting\<close>. \<open>Access\<close> is the only step that runs a body, so the only one that reads or
  writes \<^verbatim>\<open>m_data\<close>; the returned container of \<^verbatim>\<open>consume\<close> is built in it, before the
  guard is released.
\<close>

inductive step ::
  "('c \<Rightarrow> 'a lockable_scheme \<Rightarrow> 'r \<times> 'a lockable_scheme)
     \<Rightarrow> 'a lockable_scheme \<times> ('c, 'r) pc list \<Rightarrow> nat \<times> action
     \<Rightarrow> 'a lockable_scheme \<times> ('c, 'r) pc list \<Rightarrow> bool"
  for body where
  call: "i < length pcs \<Longrightarrow> pcs ! i = Idle \<Longrightarrow>
     step body (s, pcs) (i, Call) (s, pcs[i := Waiting c])"
| acquire: "i < length pcs \<Longrightarrow> pcs ! i = Waiting c \<Longrightarrow> lock s = Some s1 \<Longrightarrow>
     step body (s, pcs) (i, Acquire) (s1, pcs[i := Locked c])"
| access: "i < length pcs \<Longrightarrow> pcs ! i = Locked c \<Longrightarrow> body c s = (r, s2) \<Longrightarrow>
     step body (s, pcs) (i, Access) (s2, pcs[i := Leaving r])"
| release: "i < length pcs \<Longrightarrow> pcs ! i = Leaving r \<Longrightarrow>
     step body (s, pcs) (i, Release) (unlock s, pcs[i := Idle])"

text \<open>The states that \<open>n\<close> threads can bring about, from the accumulator \<open>s0\<close> with every
  thread outside.\<close>

inductive reachable ::
  "('c \<Rightarrow> 'a lockable_scheme \<Rightarrow> 'r \<times> 'a lockable_scheme) \<Rightarrow> nat \<Rightarrow> 'a lockable_scheme
     \<Rightarrow> 'a lockable_scheme \<times> ('c, 'r) pc list \<Rightarrow> bool"
  for body n s0 where
  at_start: "reachable body n s0 (s0, replicate n Idle)"
| after_step: "reachable body n s0 st \<Longrightarrow> step body st a st' \<Longrightarrow> reachable body n s0 st'"

text \<open>The guard is held exactly when one thread is in its critical section, and then
  by no more than one.\<close>

definition guard_inv :: "'a lockable_scheme \<times> ('c, 'r) pc list \<Rightarrow> bool" where
  "guard_inv st = (holders (snd st) = (if m_mutex (fst st) then 1 else 0))"

text \<open>
  For reading a reached state as the outcome of calls made one after the other: \<open>q\<close> is
  the accumulator after the calls that have run their bodies, with the guard free. A
  thread at \<open>Locked\<close> has taken the guard of \<open>q\<close> and done nothing else; a thread at
  \<open>Leaving\<close> has run its body and has only the guard left to release.
\<close>

fun holding :: "'a lockable_scheme \<Rightarrow> 'a lockable_scheme \<Rightarrow> ('c, 'r) pc \<Rightarrow> bool" where
  "holding q s Idle = False"
| "holding q s (Waiting c) = False"
| "holding q s (Locked c) = (s = q\<lparr>m_mutex := True\<rparr>)"
| "holding q s (Leaving r) = (m_mutex s \<and> unlock s = q)"

definition serial_inv ::
  "('c \<Rightarrow> 'a lockable_scheme \<Rightarrow> 'r \<times> 'a lockable_scheme) \<Rightarrow> 'a lockable_scheme
     \<Rightarrow> 'a lockable_scheme \<times> ('c, 'r) pc list \<Rightarrow> bool" where
  "serial_inv body s0 st =
     (\<exists>cs q. calls body cs s0 = Some q \<and> \<not> m_mutex q \<and>
        (if holders (snd st) = 0 then fst st = q
         else \<exists>i < length (snd st). holding q (fst st) (snd st ! i)))"

section \<open>The accumulators with the memory their containers own\<close>

text \<open>
  The nodes of a standard container are on the heap, and the container object owns them
  through a pointer. Whether the container that \<^verbatim>\<open>consume\<close> returns still has nodes in
  common with \<^verbatim>\<open>m_data\<close> is a question about these pointers, which the lists above cannot
  ask. So the two classes are given a second time, over a heap: \<open>tables\<close> holds every
  node list allocated so far, the address of a node list is its index, and \<open>m_data_ptr\<close>
  is the address of the node list that \<^verbatim>\<open>m_data\<close> owns. A container outside the
  accumulator is the address of its node list. Nothing is freed.
\<close>

record 'e store = lockable +
  m_data_ptr :: nat
  tables :: "'e list list"

text \<open>The move constructor on addresses: the new container takes over the node list of
  the source, and the source is left with a new, empty node list of its own. The result
  is the new container, the moved-from source and the heap.\<close>

definition st_move :: "nat \<Rightarrow> 'e list list \<Rightarrow> nat \<times> nat \<times> 'e list list" where
  "st_move p h = (p, length h, h @ [[]])"

text \<open>The defaulted constructor.\<close>

definition new_store :: "'e store" where
  "new_store = \<lparr>m_mutex = False, m_data_ptr = 0, tables = [[]]\<rparr>"

text \<open>The statements under the guard: the container operations of \<^verbatim>\<open>m_data\<close> act on the
  node list at \<open>m_data_ptr\<close>.\<close>

fun st_map_body :: "('k, 'v) map_call \<Rightarrow> ('k \<times> 'v) store \<Rightarrow> nat result \<times> ('k \<times> 'v) store" where
  "st_map_body (InsertOrAssign key val) s =
     (Void, s\<lparr>tables := (tables s)
        [m_data_ptr s := um_insert_or_assign key val (tables s ! m_data_ptr s)]\<rparr>)"
| "st_map_body EmptyMap s = (Bool (um_empty (tables s ! m_data_ptr s)), s)"
| "st_map_body SizeMap s = (Size (um_size (tables s ! m_data_ptr s)), s)"
| "st_map_body ConsumeMap s =
     (case st_move (m_data_ptr s) (tables s) of
        (ret, src, h) \<Rightarrow> (Container ret, s\<lparr>m_data_ptr := src, tables := h\<rparr>))"

fun st_set_body :: "'t set_call \<Rightarrow> 't store \<Rightarrow> nat result \<times> 't store" where
  "st_set_body (Insert x) s =
     (Void, s\<lparr>tables := (tables s)[m_data_ptr s := us_insert x (tables s ! m_data_ptr s)]\<rparr>)"
| "st_set_body EmptySet s = (Bool (us_empty (tables s ! m_data_ptr s)), s)"
| "st_set_body SizeSet s = (Size (us_size (tables s ! m_data_ptr s)), s)"
| "st_set_body ConsumeSet s =
     (case st_move (m_data_ptr s) (tables s) of
        (ret, src, h) \<Rightarrow> (Container ret, s\<lparr>m_data_ptr := src, tables := h\<rparr>))"

text \<open>The accumulator object that a store holds and the value that a returned address
  stands for, in terms of the first model.\<close>

definition object_of :: "'e store \<Rightarrow> 'e list accumulator" where
  "object_of s = \<lparr>m_mutex = m_mutex s, m_data = tables s ! m_data_ptr s\<rparr>"

fun value_of :: "'e list list \<Rightarrow> nat result \<Rightarrow> 'e list result" where
  "value_of h Void = Void"
| "value_of h (Bool b) = Bool b"
| "value_of h (Size n) = Size n"
| "value_of h (Container p) = Container (h ! p)"

text \<open>\<open>owns\<close>: the node list of \<^verbatim>\<open>m_data\<close> is allocated. \<open>apart\<close>: besides, no call is under
  way and the node list at \<open>p\<close> was allocated before that of \<^verbatim>\<open>m_data\<close>, so is another one.\<close>

definition owns :: "'e store \<Rightarrow> bool" where
  "owns s = (m_data_ptr s < length (tables s))"

definition apart :: "nat \<Rightarrow> 'e store \<Rightarrow> bool" where
  "apart p s = (\<not> m_mutex s \<and> p < m_data_ptr s \<and> m_data_ptr s < length (tables s))"

section \<open>The containers: what the operations do to the node list\<close>

lemma map_of_um_insert_or_assign:
  "map_of (um_insert_or_assign key val d) = (map_of d)(key \<mapsto> val)"
  by (induction d) auto

lemma keys_um_insert_or_assign:
  "map fst (um_insert_or_assign key val d) =
     (if key \<in> set (map fst d) then map fst d else map fst d @ [key])"
  by (induction d) auto

lemma length_um_insert_or_assign:
  "length (um_insert_or_assign key val d) =
     (if key \<in> set (map fst d) then length d else length d + 1)"
  by (induction d) auto

lemma distinct_um_insert_or_assign:
  "distinct (map fst d) \<Longrightarrow> distinct (map fst (um_insert_or_assign key val d))"
  by (simp add: keys_um_insert_or_assign)

lemma us_insert_eq: "us_insert x d = (if x \<in> set d then d else d @ [x])"
  by (induction d) auto

lemma um_empty_iff: "um_empty d \<longleftrightarrow> d = []"
  by (cases d) (simp_all add: um_empty_def)

lemma us_empty_iff: "us_empty d \<longleftrightarrow> d = []"
  by (cases d) (simp_all add: us_empty_def)

lemma map_of_put: "map_of (put kv d) = (map_of d)(fst kv \<mapsto> snd kv)"
  by (simp add: put_def map_of_um_insert_or_assign)

lemma map_of_fold_put: "map_of (fold put kvs d) = map_of d ++ map_of (rev kvs)"
proof (induction kvs arbitrary: d)
  case Nil
  show ?case by simp
next
  case (Cons kv kvs)
  have "map_of (fold put (kv # kvs) d) = map_of (put kv d) ++ map_of (rev kvs)"
    by (simp add: Cons.IH)
  also have "\<dots> = (map_of d ++ [fst kv \<mapsto> snd kv]) ++ map_of (rev kvs)"
    by (simp add: map_of_put)
  also have "\<dots> = map_of d ++ ([fst kv \<mapsto> snd kv] ++ map_of (rev kvs))"
    by (rule map_add_assoc [symmetric])
  also have "[fst kv \<mapsto> snd kv] ++ map_of (rev kvs) = map_of (rev (kv # kvs))"
    by (cases kv) simp
  finally show ?case .
qed

lemma distinct_fold_put: "distinct (map fst d) \<Longrightarrow> distinct (map fst (fold put kvs d))"
  by (induction kvs arbitrary: d) (simp_all add: put_def distinct_um_insert_or_assign)

lemma set_fold_us_insert: "set (fold us_insert xs d) = set d \<union> set xs"
  by (induction xs arbitrary: d) (auto simp: us_insert_eq)

lemma distinct_fold_us_insert: "distinct d \<Longrightarrow> distinct (fold us_insert xs d)"
  by (induction xs arbitrary: d) (simp_all add: us_insert_eq)

text \<open>A pair list with unique keys holds exactly the pairs that its lookup gives.\<close>

lemma set_eq_graph: "distinct (map fst d) \<Longrightarrow> set d = {(k, v). map_of d k = Some v}"
  by (auto dest: map_of_SomeD)

section \<open>The methods, called while the guard is free\<close>

lemma lock_guard_free:
  "\<not> m_mutex s \<Longrightarrow>
     lock_guard body s =
       Some (fst (body (s\<lparr>m_mutex := True\<rparr>)), unlock (snd (body (s\<lparr>m_mutex := True\<rparr>))))"
  by (simp add: lock_guard_def lock_def split: prod.splits)

lemma lock_guard_held: "m_mutex s \<Longrightarrow> lock_guard body s = None"
  by (simp add: lock_guard_def lock_def)

lemma insert_or_assign_free:
  "\<not> m_mutex s \<Longrightarrow>
     insert_or_assign key val s = Some ((), s\<lparr>m_data := um_insert_or_assign key val (m_data s)\<rparr>)"
  by (simp add: insert_or_assign_def lock_guard_free insert_or_assign_body_def unlock_def)

lemma empty_map_free: "\<not> m_mutex s \<Longrightarrow> empty_map s = Some (um_empty (m_data s), s)"
  by (simp add: empty_map_def lock_guard_free empty_map_body_def unlock_def)

lemma size_map_free: "\<not> m_mutex s \<Longrightarrow> size_map s = Some (um_size (m_data s), s)"
  by (simp add: size_map_def lock_guard_free size_map_body_def unlock_def)

lemma consume_map_free: "\<not> m_mutex s \<Longrightarrow> consume_map s = Some (m_data s, s\<lparr>m_data := []\<rparr>)"
  by (simp add: consume_map_def lock_guard_free consume_map_body_def um_move_def unlock_def)

lemma insert_value_free:
  "\<not> m_mutex s \<Longrightarrow> insert_value x s = Some ((), s\<lparr>m_data := us_insert x (m_data s)\<rparr>)"
  by (simp add: insert_value_def lock_guard_free insert_body_def unlock_def)

lemma empty_set_free: "\<not> m_mutex s \<Longrightarrow> empty_set s = Some (us_empty (m_data s), s)"
  by (simp add: empty_set_def lock_guard_free empty_set_body_def unlock_def)

lemma size_set_free: "\<not> m_mutex s \<Longrightarrow> size_set s = Some (us_size (m_data s), s)"
  by (simp add: size_set_def lock_guard_free size_set_body_def unlock_def)

lemma consume_set_free: "\<not> m_mutex s \<Longrightarrow> consume_set s = Some (m_data s, s\<lparr>m_data := []\<rparr>)"
  by (simp add: consume_set_def lock_guard_free consume_set_body_def us_move_def unlock_def)

text \<open>A call, given as a value of \<open>map_call\<close> or \<open>set_call\<close> and run under the guard, is
  the method of that name.\<close>

lemma map_body_methods:
  "lock_guard (map_body (InsertOrAssign key val)) s
     = map_option (\<lambda>(u, s'). (Void, s')) (insert_or_assign key val s)"
  "lock_guard (map_body EmptyMap) s = map_option (\<lambda>(b, s'). (Bool b, s')) (empty_map s)"
  "lock_guard (map_body SizeMap) s = map_option (\<lambda>(n, s'). (Size n, s')) (size_map s)"
  "lock_guard (map_body ConsumeMap) s = map_option (\<lambda>(d, s'). (Container d, s')) (consume_map s)"
  by (simp_all add: lock_guard_def insert_or_assign_def empty_map_def size_map_def consume_map_def
      split: option.splits prod.splits)

lemma set_body_methods:
  "lock_guard (set_body (Insert x)) s = map_option (\<lambda>(u, s'). (Void, s')) (insert_value x s)"
  "lock_guard (set_body EmptySet) s = map_option (\<lambda>(b, s'). (Bool b, s')) (empty_set s)"
  "lock_guard (set_body SizeSet) s = map_option (\<lambda>(n, s'). (Size n, s')) (size_set s)"
  "lock_guard (set_body ConsumeSet) s = map_option (\<lambda>(d, s'). (Container d, s')) (consume_set s)"
  by (simp_all add: lock_guard_def insert_value_def empty_set_def size_set_def consume_set_def
      split: option.splits prod.splits)

lemma insert_or_assign_all_free:
  "\<not> m_mutex s \<Longrightarrow> insert_or_assign_all kvs s = Some (s\<lparr>m_data := fold put kvs (m_data s)\<rparr>)"
  by (induction kvs arbitrary: s) (simp_all add: insert_or_assign_free put_def)

lemma insert_all_free:
  "\<not> m_mutex s \<Longrightarrow> insert_all xs s = Some (s\<lparr>m_data := fold us_insert xs (m_data s)\<rparr>)"
  by (induction xs arbitrary: s) (simp_all add: insert_value_free)

lemma values_of_key:
  "distinct (map fst d) \<Longrightarrow> map_of d key = Some val \<Longrightarrow> {v. (key, v) \<in> set d} = {val}"
  by (auto dest: eq_key_imp_eq_value)

lemma count_list_distinct: "distinct d \<Longrightarrow> count_list d x = (if x \<in> set d then 1 else 0)"
  by (induction d) auto

section \<open>One accumulation round\<close>

text \<open>
  C1. Whatever pairs are written with \<^verbatim>\<open>insert_or_assign\<close> into a new map accumulator,
  every call returns, and the container that the following \<^verbatim>\<open>consume\<close> returns has unique
  keys and holds exactly the pairs \<open>(k, v)\<close> where \<open>v\<close> is the last value written for \<open>k\<close>
  (the first one found for \<open>k\<close> in the reversed list of writes). Whatever values are put
  with \<^verbatim>\<open>insert\<close> into a new set accumulator, the container that \<^verbatim>\<open>consume\<close> returns has no
  value twice and holds exactly the values put.
\<close>

theorem consume_returns_all_inserted:
  "(\<exists>s r s'. insert_or_assign_all kvs new_map = Some s \<and> consume_map s = Some (r, s')
       \<and> distinct (map fst r) \<and> map_of r = map_of (rev kvs)
       \<and> set r = {(k, v). map_of (rev kvs) k = Some v})
   \<and> (\<exists>s r s'. insert_all xs new_set = Some s \<and> consume_set s = Some (r, s')
       \<and> distinct r \<and> set r = set xs)"
proof
  let ?r = "fold put kvs []"
  have d: "distinct (map fst ?r)" by (simp add: distinct_fold_put)
  have m: "map_of ?r = map_of (rev kvs)" by (simp add: map_of_fold_put)
  have "insert_or_assign_all kvs new_map = Some (new_map\<lparr>m_data := ?r\<rparr>)"
    by (simp add: insert_or_assign_all_free new_map_def)
  moreover have "consume_map (new_map\<lparr>m_data := ?r\<rparr>) = Some (?r, new_map)"
    by (simp add: consume_map_free new_map_def)
  moreover have "set ?r = {(k, v). map_of (rev kvs) k = Some v}"
    using set_eq_graph [OF d] by (simp add: m)
  ultimately show "\<exists>s r s'. insert_or_assign_all kvs new_map = Some s \<and> consume_map s = Some (r, s')
       \<and> distinct (map fst r) \<and> map_of r = map_of (rev kvs)
       \<and> set r = {(k, v). map_of (rev kvs) k = Some v}"
    using d m by blast
next
  let ?r = "fold us_insert xs []"
  have "insert_all xs new_set = Some (new_set\<lparr>m_data := ?r\<rparr>)"
    by (simp add: insert_all_free new_set_def)
  moreover have "consume_set (new_set\<lparr>m_data := ?r\<rparr>) = Some (?r, new_set)"
    by (simp add: consume_set_free new_set_def)
  moreover have "distinct ?r" by (simp add: distinct_fold_us_insert)
  moreover have "set ?r = set xs" by (simp add: set_fold_us_insert)
  ultimately show "\<exists>s r s'. insert_all xs new_set = Some s \<and> consume_set s = Some (r, s')
       \<and> distinct r \<and> set r = set xs"
    by blast
qed

text \<open>
  C5. \<^verbatim>\<open>consume\<close> on an accumulator that was constructed and never written to returns:
  the container it returns is the empty one, and the accumulator is as it was.
\<close>

theorem consume_never_inserted:
  "consume_map new_map = Some ([], new_map) \<and> consume_set new_set = Some ([], new_set)"
  by (simp add: consume_map_free consume_set_free new_map_def new_set_def)

text \<open>
  C2. For every accumulator whose guard is free (no call is under way), \<^verbatim>\<open>consume\<close> returns
  and leaves the accumulator equal to a newly constructed one; \<^verbatim>\<open>empty()\<close> then returns
  \<open>True\<close> and \<^verbatim>\<open>size()\<close> returns \<open>0\<close>, whatever it held before.
\<close>

theorem after_consume_empty:
  assumes "\<not> m_mutex s" and "\<not> m_mutex t"
  shows "(\<exists>r s'. consume_map s = Some (r, s') \<and> empty_map s' = Some (True, s')
            \<and> size_map s' = Some (0, s') \<and> s' = new_map)
       \<and> (\<exists>r t'. consume_set t = Some (r, t') \<and> empty_set t' = Some (True, t')
            \<and> size_set t' = Some (0, t') \<and> t' = new_set)"
  using assms
  by (simp add: consume_map_free consume_set_free empty_map_free size_map_free empty_set_free
      size_set_free um_empty_iff us_empty_iff um_size_def us_size_def new_map_def new_set_def)

theorem after_consume_empty_witness:
  "\<not> m_mutex \<lparr>m_mutex = False, m_data = [(1::nat, True), (2, False)]\<rparr>
   \<and> \<not> m_mutex \<lparr>m_mutex = False, m_data = [3::nat, 4]\<rparr>
   \<and> (\<exists>r s'. consume_map \<lparr>m_mutex = False, m_data = [(1::nat, True), (2, False)]\<rparr> = Some (r, s')
          \<and> empty_map s' = Some (True, s') \<and> size_map s' = Some (0, s') \<and> s' = new_map)
   \<and> (\<exists>r t'. consume_set \<lparr>m_mutex = False, m_data = [3::nat, 4]\<rparr> = Some (r, t')
          \<and> empty_set t' = Some (True, t') \<and> size_set t' = Some (0, t') \<and> t' = new_set)"
  using after_consume_empty [of "\<lparr>m_mutex = False, m_data = [(1::nat, True), (2, False)]\<rparr>"
      "\<lparr>m_mutex = False, m_data = [3::nat, 4]\<rparr>"]
  by simp

section \<open>Two rounds\<close>

text \<open>
  C3. After the writes of a first round and its \<^verbatim>\<open>consume\<close>, the writes of a second round
  and a second \<^verbatim>\<open>consume\<close>: the second returned container holds what the second round
  wrote and nothing of the first round; it is the container that \<^verbatim>\<open>consume\<close> returns when
  the second round's writes are made into a newly constructed accumulator.
\<close>

theorem rounds_independent:
  "(\<exists>s1 r1 s2 s3 r2 s4.
       insert_or_assign_all kvs1 new_map = Some s1 \<and> consume_map s1 = Some (r1, s2)
     \<and> insert_or_assign_all kvs2 s2 = Some s3 \<and> consume_map s3 = Some (r2, s4)
     \<and> distinct (map fst r2) \<and> map_of r2 = map_of (rev kvs2)
     \<and> (\<exists>u. insert_or_assign_all kvs2 new_map = Some u \<and> consume_map u = Some (r2, s4)))
   \<and> (\<exists>t1 q1 t2 t3 q2 t4.
       insert_all xs1 new_set = Some t1 \<and> consume_set t1 = Some (q1, t2)
     \<and> insert_all xs2 t2 = Some t3 \<and> consume_set t3 = Some (q2, t4)
     \<and> distinct q2 \<and> set q2 = set xs2
     \<and> (\<exists>u. insert_all xs2 new_set = Some u \<and> consume_set u = Some (q2, t4)))"
proof
  let ?r1 = "fold put kvs1 []" and ?r2 = "fold put kvs2 []"
  have "insert_or_assign_all kvs1 new_map = Some (new_map\<lparr>m_data := ?r1\<rparr>)"
    by (simp add: insert_or_assign_all_free new_map_def)
  moreover have "consume_map (new_map\<lparr>m_data := ?r1\<rparr>) = Some (?r1, new_map)"
    by (simp add: consume_map_free new_map_def)
  moreover have "insert_or_assign_all kvs2 new_map = Some (new_map\<lparr>m_data := ?r2\<rparr>)"
    by (simp add: insert_or_assign_all_free new_map_def)
  moreover have "consume_map (new_map\<lparr>m_data := ?r2\<rparr>) = Some (?r2, new_map)"
    by (simp add: consume_map_free new_map_def)
  moreover have "distinct (map fst ?r2)" by (simp add: distinct_fold_put)
  moreover have "map_of ?r2 = map_of (rev kvs2)" by (simp add: map_of_fold_put)
  ultimately show "\<exists>s1 r1 s2 s3 r2 s4.
       insert_or_assign_all kvs1 new_map = Some s1 \<and> consume_map s1 = Some (r1, s2)
     \<and> insert_or_assign_all kvs2 s2 = Some s3 \<and> consume_map s3 = Some (r2, s4)
     \<and> distinct (map fst r2) \<and> map_of r2 = map_of (rev kvs2)
     \<and> (\<exists>u. insert_or_assign_all kvs2 new_map = Some u \<and> consume_map u = Some (r2, s4))"
    by blast
next
  let ?q1 = "fold us_insert xs1 []" and ?q2 = "fold us_insert xs2 []"
  have "insert_all xs1 new_set = Some (new_set\<lparr>m_data := ?q1\<rparr>)"
    by (simp add: insert_all_free new_set_def)
  moreover have "consume_set (new_set\<lparr>m_data := ?q1\<rparr>) = Some (?q1, new_set)"
    by (simp add: consume_set_free new_set_def)
  moreover have "insert_all xs2 new_set = Some (new_set\<lparr>m_data := ?q2\<rparr>)"
    by (simp add: insert_all_free new_set_def)
  moreover have "consume_set (new_set\<lparr>m_data := ?q2\<rparr>) = Some (?q2, new_set)"
    by (simp add: consume_set_free new_set_def)
  moreover have "distinct ?q2" by (simp add: distinct_fold_us_insert)
  moreover have "set ?q2 = set xs2" by (simp add: set_fold_us_insert)
  ultimately show "\<exists>t1 q1 t2 t3 q2 t4.
       insert_all xs1 new_set = Some t1 \<and> consume_set t1 = Some (q1, t2)
     \<and> insert_all xs2 t2 = Some t3 \<and> consume_set t3 = Some (q2, t4)
     \<and> distinct q2 \<and> set q2 = set xs2
     \<and> (\<exists>u. insert_all xs2 new_set = Some u \<and> consume_set u = Some (q2, t4))"
    by blast
qed

section \<open>Writing a key twice, inserting a value twice\<close>

text \<open>
  C6. On a map accumulator whose guard is free and whose keys are unique, two
  \<^verbatim>\<open>insert_or_assign\<close> calls on the same key, one after the other, and then \<^verbatim>\<open>consume\<close>: the
  returned container gives the second value for the key and holds no other pair with
  that key. One \<^verbatim>\<open>insert_or_assign\<close> makes the key map to the value and leaves every other
  key's value alone; the list of keys is unchanged when the key was present and gets the
  key as a new last element when it was absent.
\<close>

theorem insert_or_assign_overwrites:
  assumes "\<not> m_mutex s" and "distinct (map fst (m_data s))"
  shows "(\<exists>s1 s2 r s3. insert_or_assign key v1 s = Some ((), s1)
            \<and> insert_or_assign key v2 s1 = Some ((), s2) \<and> consume_map s2 = Some (r, s3)
            \<and> map_of r key = Some v2 \<and> {v. (key, v) \<in> set r} = {v2})
       \<and> (\<exists>s'. insert_or_assign key val s = Some ((), s')
            \<and> map_of (m_data s') = (map_of (m_data s))(key \<mapsto> val)
            \<and> map fst (m_data s') =
                (if key \<in> set (map fst (m_data s)) then map fst (m_data s)
                 else map fst (m_data s) @ [key]))"
proof
  let ?d1 = "um_insert_or_assign key v1 (m_data s)"
  let ?d2 = "um_insert_or_assign key v2 ?d1"
  have d: "distinct (map fst ?d2)"
    using assms(2) by (intro distinct_um_insert_or_assign)
  have l: "map_of ?d2 key = Some v2"
    by (simp add: map_of_um_insert_or_assign)
  have "insert_or_assign key v1 s = Some ((), s\<lparr>m_data := ?d1\<rparr>)"
    using assms(1) by (simp add: insert_or_assign_free)
  moreover have "insert_or_assign key v2 (s\<lparr>m_data := ?d1\<rparr>) = Some ((), s\<lparr>m_data := ?d2\<rparr>)"
    using assms(1) by (simp add: insert_or_assign_free)
  moreover have "consume_map (s\<lparr>m_data := ?d2\<rparr>) = Some (?d2, s\<lparr>m_data := []\<rparr>)"
    using assms(1) by (simp add: consume_map_free)
  ultimately show "\<exists>s1 s2 r s3. insert_or_assign key v1 s = Some ((), s1)
            \<and> insert_or_assign key v2 s1 = Some ((), s2) \<and> consume_map s2 = Some (r, s3)
            \<and> map_of r key = Some v2 \<and> {v. (key, v) \<in> set r} = {v2}"
    using l values_of_key [OF d l] by blast
next
  show "\<exists>s'. insert_or_assign key val s = Some ((), s')
            \<and> map_of (m_data s') = (map_of (m_data s))(key \<mapsto> val)
            \<and> map fst (m_data s') =
                (if key \<in> set (map fst (m_data s)) then map fst (m_data s)
                 else map fst (m_data s) @ [key])"
    using assms(1)
    by (simp add: insert_or_assign_free map_of_um_insert_or_assign keys_um_insert_or_assign)
qed

theorem insert_or_assign_overwrites_witness:
  "\<not> m_mutex \<lparr>m_mutex = False, m_data = [(1::nat, 10::nat), (2, 20)]\<rparr>
   \<and> distinct (map fst (m_data \<lparr>m_mutex = False, m_data = [(1::nat, 10::nat), (2, 20)]\<rparr>))
   \<and> (\<exists>s1 s2 r s3.
         insert_or_assign 1 30 \<lparr>m_mutex = False, m_data = [(1::nat, 10::nat), (2, 20)]\<rparr> = Some ((), s1)
       \<and> insert_or_assign 1 40 s1 = Some ((), s2) \<and> consume_map s2 = Some (r, s3)
       \<and> map_of r 1 = Some 40 \<and> {v. (1, v) \<in> set r} = {40})
   \<and> (\<exists>s'. insert_or_assign 1 50 \<lparr>m_mutex = False, m_data = [(1::nat, 10::nat), (2, 20)]\<rparr> = Some ((), s')
       \<and> map_of (m_data s') = (map_of [(1, 10), (2, 20)])(1 \<mapsto> 50)
       \<and> map fst (m_data s') = [1, 2])"
  using insert_or_assign_overwrites
    [of "\<lparr>m_mutex = False, m_data = [(1::nat, 10::nat), (2, 20)]\<rparr>" 1 30 40 50]
  by simp

text \<open>
  C7. On a set accumulator whose guard is free and whose values are unique: \<^verbatim>\<open>insert\<close> of a
  value that is present returns and leaves the accumulator as it was; after two \<^verbatim>\<open>insert\<close>
  calls with the same value the second has changed nothing, and the container that
  \<^verbatim>\<open>consume\<close> then returns holds the value exactly once.
\<close>

theorem insert_value_idempotent:
  assumes "\<not> m_mutex s" and "distinct (m_data s)"
  shows "(x \<in> set (m_data s) \<longrightarrow> insert_value x s = Some ((), s))
       \<and> (\<exists>s1 s2 r s3. insert_value x s = Some ((), s1) \<and> insert_value x s1 = Some ((), s2)
            \<and> s2 = s1 \<and> consume_set s2 = Some (r, s3) \<and> count_list r x = 1)"
proof
  show "x \<in> set (m_data s) \<longrightarrow> insert_value x s = Some ((), s)"
    using assms(1) by (simp add: insert_value_free us_insert_eq)
next
  let ?d = "us_insert x (m_data s)"
  have "distinct ?d" "x \<in> set ?d"
    using assms(2) by (simp_all add: us_insert_eq)
  then have c: "count_list ?d x = 1"
    by (simp add: count_list_distinct)
  have "insert_value x s = Some ((), s\<lparr>m_data := ?d\<rparr>)"
    using assms(1) by (simp add: insert_value_free)
  moreover have "insert_value x (s\<lparr>m_data := ?d\<rparr>) = Some ((), s\<lparr>m_data := ?d\<rparr>)"
    using assms(1) by (simp add: insert_value_free us_insert_eq)
  moreover have "consume_set (s\<lparr>m_data := ?d\<rparr>) = Some (?d, s\<lparr>m_data := []\<rparr>)"
    using assms(1) by (simp add: consume_set_free)
  ultimately show "\<exists>s1 s2 r s3. insert_value x s = Some ((), s1) \<and> insert_value x s1 = Some ((), s2)
            \<and> s2 = s1 \<and> consume_set s2 = Some (r, s3) \<and> count_list r x = 1"
    using c by blast
qed

theorem insert_value_idempotent_witness:
  "\<not> m_mutex \<lparr>m_mutex = False, m_data = [5::nat, 7]\<rparr>
   \<and> distinct (m_data \<lparr>m_mutex = False, m_data = [5::nat, 7]\<rparr>)
   \<and> 7 \<in> set (m_data \<lparr>m_mutex = False, m_data = [5::nat, 7]\<rparr>)
   \<and> insert_value 7 \<lparr>m_mutex = False, m_data = [5::nat, 7]\<rparr>
       = Some ((), \<lparr>m_mutex = False, m_data = [5::nat, 7]\<rparr>)
   \<and> (\<exists>s1 s2 r s3. insert_value 7 \<lparr>m_mutex = False, m_data = [5::nat, 7]\<rparr> = Some ((), s1)
         \<and> insert_value 7 s1 = Some ((), s2) \<and> s2 = s1 \<and> consume_set s2 = Some (r, s3)
         \<and> count_list r 7 = 1)"
  using insert_value_idempotent [of "\<lparr>m_mutex = False, m_data = [5::nat, 7]\<rparr>" 7]
  by auto

section \<open>The observers \<^verbatim>\<open>empty\<close> and \<^verbatim>\<open>size\<close>\<close>

text \<open>
  C9. Called on an accumulator whose guard is free, \<^verbatim>\<open>empty()\<close> and \<^verbatim>\<open>size()\<close> return and leave
  the accumulator as it was (the stored entries unchanged, the guard free again), and
  \<^verbatim>\<open>empty()\<close> returns \<open>True\<close> exactly when \<^verbatim>\<open>size()\<close> returns \<open>0\<close>.
\<close>

theorem observers_pure:
  assumes "\<not> m_mutex s" and "\<not> m_mutex t"
  shows "(\<exists>b n. empty_map s = Some (b, s) \<and> size_map s = Some (n, s) \<and> b = (n = 0))
       \<and> (\<exists>b n. empty_set t = Some (b, t) \<and> size_set t = Some (n, t) \<and> b = (n = 0))"
  using assms
  by (simp add: empty_map_free size_map_free empty_set_free size_set_free
      um_empty_iff us_empty_iff um_size_def us_size_def)

theorem observers_pure_witness:
  "\<not> m_mutex \<lparr>m_mutex = False, m_data = [(1::nat, True)]\<rparr>
   \<and> \<not> m_mutex \<lparr>m_mutex = False, m_data = [] :: nat list\<rparr>
   \<and> (\<exists>b n. empty_map \<lparr>m_mutex = False, m_data = [(1::nat, True)]\<rparr>
                = Some (b, \<lparr>m_mutex = False, m_data = [(1::nat, True)]\<rparr>)
          \<and> size_map \<lparr>m_mutex = False, m_data = [(1::nat, True)]\<rparr>
                = Some (n, \<lparr>m_mutex = False, m_data = [(1::nat, True)]\<rparr>)
          \<and> b = (n = 0))
   \<and> (\<exists>b n. empty_set \<lparr>m_mutex = False, m_data = [] :: nat list\<rparr>
                = Some (b, \<lparr>m_mutex = False, m_data = [] :: nat list\<rparr>)
          \<and> size_set \<lparr>m_mutex = False, m_data = [] :: nat list\<rparr>
                = Some (n, \<lparr>m_mutex = False, m_data = [] :: nat list\<rparr>)
          \<and> b = (n = 0))"
  using observers_pure [of "\<lparr>m_mutex = False, m_data = [(1::nat, True)]\<rparr>"
      "\<lparr>m_mutex = False, m_data = [] :: nat list\<rparr>"]
  by simp

section \<open>How \<^verbatim>\<open>size()\<close> changes\<close>

text \<open>Every call made while the guard is free returns and leaves the guard free; unless
  it is \<^verbatim>\<open>consume\<close>, the node list is at least as long after it as before.\<close>

lemma map_call_free:
  assumes "\<not> m_mutex s"
  shows "\<exists>r s'. lock_guard (map_body c) s = Some (r, s') \<and> \<not> m_mutex s'
           \<and> (c = ConsumeMap \<or> length (m_data s) \<le> length (m_data s'))"
  using assms
  by (cases c)
     (simp_all add: lock_guard_free unlock_def insert_or_assign_body_def empty_map_body_def
        size_map_body_def consume_map_body_def um_move_def length_um_insert_or_assign)

lemma set_call_free:
  assumes "\<not> m_mutex s"
  shows "\<exists>r s'. lock_guard (set_body c) s = Some (r, s') \<and> \<not> m_mutex s'
           \<and> (c = ConsumeSet \<or> length (m_data s) \<le> length (m_data s'))"
  using assms
  by (cases c)
     (simp_all add: lock_guard_free unlock_def insert_body_def empty_set_body_def
        size_set_body_def consume_set_body_def us_move_def us_insert_eq)

lemma map_calls_grow:
  "\<not> m_mutex s \<Longrightarrow> ConsumeMap \<notin> set cs \<Longrightarrow>
     \<exists>s'. calls map_body cs s = Some s' \<and> \<not> m_mutex s' \<and> length (m_data s) \<le> length (m_data s')"
proof (induction cs arbitrary: s)
  case Nil
  then show ?case by simp
next
  case (Cons c cs)
  from map_call_free [OF Cons.prems(1), of c] Cons.prems(2)
  obtain r s1 where s1: "lock_guard (map_body c) s = Some (r, s1)" "\<not> m_mutex s1"
      "length (m_data s) \<le> length (m_data s1)"
    by auto
  from Cons.IH [OF s1(2)] Cons.prems(2)
  obtain s' where "calls map_body cs s1 = Some s'" "\<not> m_mutex s'"
      "length (m_data s1) \<le> length (m_data s')"
    by auto
  with s1 show ?case by auto
qed

lemma set_calls_grow:
  "\<not> m_mutex s \<Longrightarrow> ConsumeSet \<notin> set cs \<Longrightarrow>
     \<exists>s'. calls set_body cs s = Some s' \<and> \<not> m_mutex s' \<and> length (m_data s) \<le> length (m_data s')"
proof (induction cs arbitrary: s)
  case Nil
  then show ?case by simp
next
  case (Cons c cs)
  from set_call_free [OF Cons.prems(1), of c] Cons.prems(2)
  obtain r s1 where s1: "lock_guard (set_body c) s = Some (r, s1)" "\<not> m_mutex s1"
      "length (m_data s) \<le> length (m_data s1)"
    by auto
  from Cons.IH [OF s1(2)] Cons.prems(2)
  obtain s' where "calls set_body cs s1 = Some s'" "\<not> m_mutex s'"
      "length (m_data s1) \<le> length (m_data s')"
    by auto
  with s1 show ?case by auto
qed

text \<open>
  C10. On an accumulator whose guard is free: \<^verbatim>\<open>size()\<close> after one \<^verbatim>\<open>insert_or_assign\<close> (map) or
  one \<^verbatim>\<open>insert\<close> (set) is \<^verbatim>\<open>size()\<close> before it when the key or value was present and one
  more when it was absent; and after any sequence of calls without \<^verbatim>\<open>consume\<close>, \<^verbatim>\<open>size()\<close> is
  at least what it was before the sequence.
\<close>

theorem size_after_insert:
  assumes "\<not> m_mutex s" and "\<not> m_mutex t"
    and "ConsumeMap \<notin> set cs" and "ConsumeSet \<notin> set ds"
  shows "(\<exists>n s' n'. size_map s = Some (n, s) \<and> insert_or_assign key val s = Some ((), s')
            \<and> size_map s' = Some (n', s')
            \<and> n' = (if key \<in> fst ` set (m_data s) then n else n + 1))
       \<and> (\<exists>n t' n'. size_set t = Some (n, t) \<and> insert_value x t = Some ((), t')
            \<and> size_set t' = Some (n', t')
            \<and> n' = (if x \<in> set (m_data t) then n else n + 1))
       \<and> (\<exists>n s' n'. size_map s = Some (n, s) \<and> calls map_body cs s = Some s'
            \<and> size_map s' = Some (n', s') \<and> n \<le> n')
       \<and> (\<exists>n t' n'. size_set t = Some (n, t) \<and> calls set_body ds t = Some t'
            \<and> size_set t' = Some (n', t') \<and> n \<le> n')"
proof (intro conjI)
  show "\<exists>n s' n'. size_map s = Some (n, s) \<and> insert_or_assign key val s = Some ((), s')
            \<and> size_map s' = Some (n', s')
            \<and> n' = (if key \<in> fst ` set (m_data s) then n else n + 1)"
    using assms(1)
    by (simp add: size_map_free insert_or_assign_free um_size_def length_um_insert_or_assign)
  show "\<exists>n t' n'. size_set t = Some (n, t) \<and> insert_value x t = Some ((), t')
            \<and> size_set t' = Some (n', t')
            \<and> n' = (if x \<in> set (m_data t) then n else n + 1)"
    using assms(2)
    by (simp add: size_set_free insert_value_free us_size_def us_insert_eq)
  from map_calls_grow [OF assms(1) assms(3)]
  show "\<exists>n s' n'. size_map s = Some (n, s) \<and> calls map_body cs s = Some s'
            \<and> size_map s' = Some (n', s') \<and> n \<le> n'"
    using assms(1) by (auto simp: size_map_free um_size_def)
  from set_calls_grow [OF assms(2) assms(4)]
  show "\<exists>n t' n'. size_set t = Some (n, t) \<and> calls set_body ds t = Some t'
            \<and> size_set t' = Some (n', t') \<and> n \<le> n'"
    using assms(2) by (auto simp: size_set_free us_size_def)
qed

theorem size_after_insert_witness:
  "\<not> m_mutex \<lparr>m_mutex = False, m_data = [(1::nat, True)]\<rparr>
   \<and> \<not> m_mutex \<lparr>m_mutex = False, m_data = [4::nat]\<rparr>
   \<and> ConsumeMap \<notin> set [InsertOrAssign (2::nat) False, SizeMap, InsertOrAssign 2 True, EmptyMap]
   \<and> ConsumeSet \<notin> set [Insert (4::nat), EmptySet, Insert 5, SizeSet]
   \<and> (\<exists>n s' n'. size_map \<lparr>m_mutex = False, m_data = [(1::nat, True)]\<rparr>
                    = Some (n, \<lparr>m_mutex = False, m_data = [(1::nat, True)]\<rparr>)
         \<and> insert_or_assign 2 False \<lparr>m_mutex = False, m_data = [(1::nat, True)]\<rparr> = Some ((), s')
         \<and> size_map s' = Some (n', s') \<and> n' = n + 1)
   \<and> (\<exists>n t' n'. size_set \<lparr>m_mutex = False, m_data = [4::nat]\<rparr>
                    = Some (n, \<lparr>m_mutex = False, m_data = [4::nat]\<rparr>)
         \<and> insert_value 4 \<lparr>m_mutex = False, m_data = [4::nat]\<rparr> = Some ((), t')
         \<and> size_set t' = Some (n', t') \<and> n' = n)
   \<and> (\<exists>n s' n'. size_map \<lparr>m_mutex = False, m_data = [(1::nat, True)]\<rparr>
                    = Some (n, \<lparr>m_mutex = False, m_data = [(1::nat, True)]\<rparr>)
         \<and> calls map_body [InsertOrAssign (2::nat) False, SizeMap, InsertOrAssign 2 True, EmptyMap]
              \<lparr>m_mutex = False, m_data = [(1::nat, True)]\<rparr> = Some s'
         \<and> size_map s' = Some (n', s') \<and> n \<le> n')
   \<and> (\<exists>n t' n'. size_set \<lparr>m_mutex = False, m_data = [4::nat]\<rparr>
                    = Some (n, \<lparr>m_mutex = False, m_data = [4::nat]\<rparr>)
         \<and> calls set_body [Insert (4::nat), EmptySet, Insert 5, SizeSet]
              \<lparr>m_mutex = False, m_data = [4::nat]\<rparr> = Some t'
         \<and> size_set t' = Some (n', t') \<and> n \<le> n')"
  using size_after_insert [of "\<lparr>m_mutex = False, m_data = [(1::nat, True)]\<rparr>"
      "\<lparr>m_mutex = False, m_data = [4::nat]\<rparr>"
      "[InsertOrAssign (2::nat) False, SizeMap, InsertOrAssign 2 True, EmptyMap]"
      "[Insert (4::nat), EmptySet, Insert 5, SizeSet]" 2 False 4]
  by simp

section \<open>The guard serializes the calls\<close>

text \<open>Counting the threads in their critical sections when one thread moves.\<close>

lemma holders_update:
  "i < length pcs \<Longrightarrow>
     holders (pcs[i := q]) + (if in_critical (pcs ! i) then 1 else 0)
       = holders pcs + (if in_critical q then 1 else 0)"
proof (induction pcs arbitrary: i)
  case Nil
  then show ?case by simp
next
  case (Cons p pcs)
  show ?case
  proof (cases i)
    case 0
    then show ?thesis by (simp add: holders_def)
  next
    case (Suc k)
    with Cons.prems have "k < length pcs" by simp
    from Cons.IH [OF this] Suc show ?thesis by (simp add: holders_def)
  qed
qed

lemma holders_replicate: "holders (replicate n Idle) = 0"
  by (simp add: holders_def)

lemma holders_ge: "i < length pcs \<Longrightarrow> in_critical (pcs ! i) \<Longrightarrow> 1 \<le> holders pcs"
proof -
  assume "i < length pcs" and "in_critical (pcs ! i)"
  then have "pcs ! i \<in> set (filter in_critical pcs)" by simp
  then have "filter in_critical pcs \<noteq> []" by force
  then show ?thesis by (simp add: holders_def Suc_le_eq)
qed

lemma holders_two:
  assumes "i < j" and "j < length pcs" and "in_critical (pcs ! i)" and "in_critical (pcs ! j)"
  shows "2 \<le> holders pcs"
proof -
  have "pcs = take j pcs @ drop j pcs" by simp
  then have "holders pcs = holders (take j pcs) + holders (drop j pcs)"
    by (metis filter_append holders_def length_append)
  moreover have "1 \<le> holders (take j pcs)"
    using assms by (intro holders_ge [of i]) simp_all
  moreover have "1 \<le> holders (drop j pcs)"
    using assms by (intro holders_ge [of 0]) simp_all
  ultimately show ?thesis by simp
qed

lemma holders_one:
  assumes "holders pcs \<le> 1" and "i < length pcs" and "j < length pcs"
    and "in_critical (pcs ! i)" and "in_critical (pcs ! j)"
  shows "i = j"
proof (rule ccontr)
  assume "i \<noteq> j"
  then consider "i < j" | "j < i" by linarith
  then have "2 \<le> holders pcs"
    using assms holders_two by cases blast+
  with assms(1) show False by simp
qed

text \<open>Each step keeps \<open>guard_inv\<close>, provided the bodies leave \<^verbatim>\<open>m_mutex\<close> alone, as those of
  both classes do.\<close>

lemma guard_inv_step:
  assumes keeps: "\<And>c s. m_mutex (snd (body c s)) = m_mutex s"
    and st: "step body st a st'" and inv: "guard_inv st"
  shows "guard_inv st'"
  using st
proof cases
  case (call i pcs s c)
  then have lt: "i < length pcs" by simp
  from inv call holders_update [OF lt, of "Waiting c"] show ?thesis
    by (simp add: guard_inv_def)
next
  case (acquire i pcs c s s1)
  then have lt: "i < length pcs" and "lock s = Some s1" by simp_all
  then have "\<not> m_mutex s" and "m_mutex s1"
    by (auto simp: lock_def split: if_splits)
  with inv acquire holders_update [OF lt, of "Locked c"] show ?thesis
    by (simp add: guard_inv_def)
next
  case (access i pcs c s r s2)
  then have lt: "i < length pcs" and "body c s = (r, s2)" by simp_all
  with keeps [of c s] have "m_mutex s2 = m_mutex s"
    by simp
  with inv access holders_update [OF lt, of "Leaving r"] show ?thesis
    by (simp add: guard_inv_def)
next
  case (release i pcs r s)
  then have lt: "i < length pcs" and "in_critical (pcs ! i)" by simp_all
  then have "1 \<le> holders pcs" by (rule holders_ge)
  with inv release holders_update [OF lt, of Idle] show ?thesis
    by (simp add: guard_inv_def unlock_def split: if_splits)
qed

lemma guard_inv_reachable:
  assumes keeps: "\<And>c s. m_mutex (snd (body c s)) = m_mutex s"
    and free: "\<not> m_mutex s0" and r: "reachable body n s0 st"
  shows "guard_inv st"
  using r
proof induction
  case at_start
  show ?case using free by (simp add: guard_inv_def holders_replicate)
next
  case (after_step st a st')
  show ?case
    by (rule guard_inv_step [where body = body, OF keeps after_step.hyps(2) after_step.IH])
qed

lemma access_holds_guard:
  assumes "guard_inv (s, pcs)" and "step body (s, pcs) (i, Access) st'"
  shows "m_mutex s \<and> in_critical (pcs ! i)
     \<and> (\<forall>j < length pcs. in_critical (pcs ! j) \<longrightarrow> j = i)"
  using assms(2)
proof cases
  case (access c r s2)
  then have i: "i < length pcs" "in_critical (pcs ! i)" by simp_all
  from holders_ge [OF i] assms(1) have m: "m_mutex s" "holders pcs \<le> 1"
    by (simp_all add: guard_inv_def split: if_splits)
  from holders_one [OF m(2) _ i(1) _ i(2)] have "\<forall>j < length pcs. in_critical (pcs ! j) \<longrightarrow> j = i"
    by blast
  with m i show ?thesis by blast
qed

lemma other_steps_keep_data:
  assumes "step body (s, pcs) (i, a) (s', pcs')" and "a \<noteq> Access"
  shows "m_data s' = m_data s"
  using assms
  by cases (auto simp: lock_def unlock_def split: if_splits)


lemma map_body_mutex: "m_mutex (snd (map_body c s)) = m_mutex s"
  by (cases c)
     (simp_all add: insert_or_assign_body_def empty_map_body_def size_map_body_def
        consume_map_body_def um_move_def)

lemma set_body_mutex: "m_mutex (snd (set_body c s)) = m_mutex s"
  by (cases c)
     (simp_all add: insert_body_def empty_set_body_def size_set_body_def
        consume_set_body_def us_move_def)

text \<open>
  C8. Any number of threads calling the methods of one accumulator, constructed with its
  guard free, in any interleaving: in every state they reach, the guard is held exactly
  when one thread is in its critical section, and no two threads are in their critical
  sections. A thread that runs the statement under the guard (the step that reads or
  writes \<^verbatim>\<open>m_data\<close>) holds the guard and is the only one in a critical section; every
  other step leaves \<^verbatim>\<open>m_data\<close> as it is. For both classes.
\<close>

theorem guard_serializes:
  assumes "\<not> m_mutex s0" and "reachable map_body m s0 (s, pcs)"
    and "\<not> m_mutex t0" and "reachable set_body n t0 (t, qcs)"
  shows "holders pcs = (if m_mutex s then 1 else 0)
       \<and> (\<forall>i < length pcs. \<forall>j < length pcs.
             in_critical (pcs ! i) \<longrightarrow> in_critical (pcs ! j) \<longrightarrow> i = j)
       \<and> (\<forall>i st'. step map_body (s, pcs) (i, Access) st' \<longrightarrow>
             m_mutex s \<and> in_critical (pcs ! i)
             \<and> (\<forall>j < length pcs. in_critical (pcs ! j) \<longrightarrow> j = i))
       \<and> (\<forall>i a s' pcs'. step map_body (s, pcs) (i, a) (s', pcs') \<longrightarrow> a \<noteq> Access \<longrightarrow>
             m_data s' = m_data s)
       \<and> holders qcs = (if m_mutex t then 1 else 0)
       \<and> (\<forall>i < length qcs. \<forall>j < length qcs.
             in_critical (qcs ! i) \<longrightarrow> in_critical (qcs ! j) \<longrightarrow> i = j)
       \<and> (\<forall>i st'. step set_body (t, qcs) (i, Access) st' \<longrightarrow>
             m_mutex t \<and> in_critical (qcs ! i)
             \<and> (\<forall>j < length qcs. in_critical (qcs ! j) \<longrightarrow> j = i))
       \<and> (\<forall>i a t' qcs'. step set_body (t, qcs) (i, a) (t', qcs') \<longrightarrow> a \<noteq> Access \<longrightarrow>
             m_data t' = m_data t)"
proof -
  have p: "guard_inv (s, pcs)"
    by (rule guard_inv_reachable [where body = map_body, OF map_body_mutex assms(1) assms(2)])
  have q: "guard_inv (t, qcs)"
    by (rule guard_inv_reachable [where body = set_body, OF set_body_mutex assms(3) assms(4)])
  have hp: "holders pcs = (if m_mutex s then 1 else 0)"
    using p by (simp add: guard_inv_def)
  have hq: "holders qcs = (if m_mutex t then 1 else 0)"
    using q by (simp add: guard_inv_def)
  have "holders pcs \<le> 1" using hp by simp
  then have xp: "\<forall>i < length pcs. \<forall>j < length pcs.
             in_critical (pcs ! i) \<longrightarrow> in_critical (pcs ! j) \<longrightarrow> i = j"
    using holders_one by blast
  have "holders qcs \<le> 1" using hq by simp
  then have xq: "\<forall>i < length qcs. \<forall>j < length qcs.
             in_critical (qcs ! i) \<longrightarrow> in_critical (qcs ! j) \<longrightarrow> i = j"
    using holders_one by blast
  have ap: "\<forall>i st'. step map_body (s, pcs) (i, Access) st' \<longrightarrow>
             m_mutex s \<and> in_critical (pcs ! i)
             \<and> (\<forall>j < length pcs. in_critical (pcs ! j) \<longrightarrow> j = i)"
    using access_holds_guard [OF p] by blast
  have aq: "\<forall>i st'. step set_body (t, qcs) (i, Access) st' \<longrightarrow>
             m_mutex t \<and> in_critical (qcs ! i)
             \<and> (\<forall>j < length qcs. in_critical (qcs ! j) \<longrightarrow> j = i)"
    using access_holds_guard [OF q] by blast
  have op: "\<forall>i a s' pcs'. step map_body (s, pcs) (i, a) (s', pcs') \<longrightarrow> a \<noteq> Access \<longrightarrow>
             m_data s' = m_data s"
    using other_steps_keep_data by blast
  have oq: "\<forall>i a t' qcs'. step set_body (t, qcs) (i, a) (t', qcs') \<longrightarrow> a \<noteq> Access \<longrightarrow>
             m_data t' = m_data t"
    using other_steps_keep_data by blast
  from hp xp ap op hq xq aq oq show ?thesis by (intro conjI)
qed

theorem guard_serializes_witness:
  "\<not> m_mutex (new_map :: (nat, bool) concurrent_unordered_map)
   \<and> reachable map_body 3 (new_map :: (nat, bool) concurrent_unordered_map)
       (new_map\<lparr>m_mutex := True\<rparr>, [Locked (InsertOrAssign 1 True), Waiting ConsumeMap, Idle])
   \<and> \<not> m_mutex (new_set :: nat concurrent_unordered_set)
   \<and> reachable set_body 2 (new_set :: nat concurrent_unordered_set)
       (new_set\<lparr>m_mutex := True\<rparr>, [Idle, Locked (Insert 5)])
   \<and> holders ([Locked (InsertOrAssign (1::nat) True), Waiting ConsumeMap, Idle]
        :: ((nat, bool) map_call, (nat, bool) unordered_map result) pc list) = 1
   \<and> holders ([Idle, Locked (Insert (5::nat))] :: (nat set_call, nat unordered_set result) pc list) = 1"
proof -
  let ?c = "InsertOrAssign (1::nat) True"
  let ?m = "new_map :: (nat, bool) concurrent_unordered_map"
  let ?n = "new_set :: nat concurrent_unordered_set"
  have free: "\<not> m_mutex ?m" "\<not> m_mutex ?n"
    by (simp_all add: new_map_def new_set_def)
  have "reachable map_body 3 ?m (?m, [Idle, Idle, Idle])"
    using reachable.at_start [of map_body 3 ?m] by (simp add: numeral_3_eq_3)
  from reachable.after_step [OF this step.call [where i = 0 and c = ?c]]
  have "reachable map_body 3 ?m (?m, [Waiting ?c, Idle, Idle])"
    by simp
  from reachable.after_step [OF this step.call [where i = 1 and c = ConsumeMap]]
  have "reachable map_body 3 ?m (?m, [Waiting ?c, Waiting ConsumeMap, Idle])"
    by simp
  from reachable.after_step [OF this step.acquire [where i = 0 and c = ?c and ?s1.0 = "?m\<lparr>m_mutex := True\<rparr>"]]
  have m: "reachable map_body 3 ?m (?m\<lparr>m_mutex := True\<rparr>, [Locked ?c, Waiting ConsumeMap, Idle])"
    by (simp add: lock_def new_map_def)
  have "reachable set_body 2 ?n (?n, [Idle, Idle])"
    using reachable.at_start [of set_body 2 ?n] by (simp add: numeral_2_eq_2)
  from reachable.after_step [OF this step.call [where i = 1 and c = "Insert 5"]]
  have "reachable set_body 2 ?n (?n, [Idle, Waiting (Insert 5)])"
    by simp
  from reachable.after_step [OF this step.acquire [where i = 1 and c = "Insert 5" and ?s1.0 = "?n\<lparr>m_mutex := True\<rparr>"]]
  have n: "reachable set_body 2 ?n (?n\<lparr>m_mutex := True\<rparr>, [Idle, Locked (Insert 5)])"
    by (simp add: lock_def new_set_def)
  from guard_serializes [OF free(1) m free(2) n] free m n
  show ?thesis by simp
qed

subsection \<open>What the threads leave behind is what calls in some order leave behind\<close>

text \<open>
  The bodies run one at a time, so a reached state is that of the calls made one after
  the other in the order in which their bodies ran, up to the guard that a thread in
  its critical section holds. In particular, when no thread is in a critical section
  (as after the barrier that ends an accumulation phase), the accumulator is what some
  sequence of calls, each returning before the next starts, makes of the initial one.
\<close>

lemma calls_append:
  "calls body (cs @ ds) s = (case calls body cs s of None \<Rightarrow> None | Some s' \<Rightarrow> calls body ds s')"
  by (induction cs arbitrary: s) (auto split: option.splits)

lemma serial_invI:
  assumes "calls body cs s0 = Some q" and "\<not> m_mutex q"
    and "holders pcs = 0 \<Longrightarrow> s = q"
    and "holders pcs \<noteq> 0 \<Longrightarrow> i < length pcs \<and> holding q s (pcs ! i)"
  shows "serial_inv body s0 (s, pcs)"
  unfolding serial_inv_def using assms by (intro exI [of _ cs] exI [of _ q]) auto

lemma holding_critical: "holding q s p \<Longrightarrow> in_critical p"
  by (cases p) simp_all

lemma serial_inv_step:
  assumes keeps: "\<And>c s. m_mutex (snd (body c s)) = m_mutex s"
    and st: "step body st a st'" and g: "guard_inv st" and inv: "serial_inv body s0 st"
  shows "serial_inv body s0 st'"
proof -
  from inv obtain cs q where q: "calls body cs s0 = Some q" "\<not> m_mutex q"
    and rel: "if holders (snd st) = 0 then fst st = q
         else \<exists>i < length (snd st). holding q (fst st) (snd st ! i)"
    unfolding serial_inv_def by blast
  from g have le: "holders (snd st) \<le> 1" by (simp add: guard_inv_def)
  have only: "holding q (fst st) (snd st ! i)"
    if "i < length (snd st)" and "in_critical (snd st ! i)" for i
  proof -
    from holders_ge [OF that] have "holders (snd st) \<noteq> 0" by simp
    with rel obtain k where k: "k < length (snd st)" "holding q (fst st) (snd st ! k)"
      by auto
    from holders_one [OF le k(1) that(1) holding_critical [OF k(2)] that(2)] k(2)
    show ?thesis by simp
  qed
  from st show ?thesis
  proof cases
    case (call i pcs s c)
    then have lt: "i < length pcs" and idle: "pcs ! i = Idle" by simp_all
    from holders_update [OF lt, of "Waiting c"] idle
    have h: "holders (pcs[i := Waiting c]) = holders pcs" by simp
    show ?thesis
    proof (cases "holders pcs = 0")
      case True
      with rel call have "s = q" by simp
      with q h True show ?thesis
        unfolding call by (intro serial_invI [where cs = cs and q = q and i = 0]) simp_all
    next
      case False
      with rel call obtain k where k: "k < length pcs" "holding q s (pcs ! k)"
        by auto
      with idle have "k \<noteq> i" by auto
      then have "pcs[i := Waiting c] ! k = pcs ! k" by simp
      with k q h False show ?thesis
        unfolding call by (intro serial_invI [where cs = cs and q = q and i = k]) simp_all
    qed
  next
    case (acquire i pcs c s s1)
    then have lt: "i < length pcs" and w: "pcs ! i = Waiting c" and "lock s = Some s1"
      by simp_all
    then have free: "\<not> m_mutex s" and s1: "s1 = s\<lparr>m_mutex := True\<rparr>"
      by (auto simp: lock_def split: if_splits)
    with g acquire have z: "holders pcs = 0" by (simp add: guard_inv_def)
    with rel acquire have "s = q" by simp
    moreover from holders_update [OF lt, of "Locked c"] w z
    have "holders (pcs[i := Locked c]) \<noteq> 0" by simp
    ultimately show ?thesis
      using q lt s1 unfolding acquire
      by (intro serial_invI [where cs = cs and q = q and i = i]) simp_all
  next
    case (access i pcs c s r s2)
    then have lt: "i < length pcs" and l: "pcs ! i = Locked c" and b: "body c s = (r, s2)"
      by simp_all
    from only [of i] access lt l have s: "s = q\<lparr>m_mutex := True\<rparr>" by simp
    from keeps [of c s] b s have m2: "m_mutex s2" by simp
    from q(2) b s have "lock_guard (body c) q = Some (r, unlock s2)"
      by (simp add: lock_guard_free)
    with q(1) have c: "calls body (cs @ [c]) s0 = Some (unlock s2)"
      by (simp add: calls_append)
    from holders_ge [OF lt] l have "holders pcs \<noteq> 0" by simp
    with holders_update [OF lt, of "Leaving r"] l
    have "holders (pcs[i := Leaving r]) \<noteq> 0" by simp
    then show ?thesis
      using c m2 lt unfolding access
      by (intro serial_invI [where cs = "cs @ [c]" and q = "unlock s2" and i = i])
         (simp_all add: unlock_def)
  next
    case (release i pcs r s)
    then have lt: "i < length pcs" and l: "pcs ! i = Leaving r" by simp_all
    from only [of i] release lt l have s: "unlock s = q" by simp
    from holders_ge [OF lt] l have "holders pcs \<noteq> 0" by simp
    with holders_update [OF lt, of Idle] l le release
    have "holders (pcs[i := Idle]) = 0" by simp
    then show ?thesis
      using q s unfolding release
      by (intro serial_invI [where cs = cs and q = q and i = 0]) simp_all
  qed
qed

lemma serial_inv_reachable:
  assumes keeps: "\<And>c s. m_mutex (snd (body c s)) = m_mutex s"
    and free: "\<not> m_mutex s0" and r: "reachable body n s0 st"
  shows "serial_inv body s0 st"
  using r
proof induction
  case at_start
  have "calls body [] s0 = Some s0" by simp
  with free show ?case
    by (intro serial_invI [where cs = "[]" and q = s0 and i = 0]) (simp_all add: holders_replicate)
next
  case (after_step st a st')
  from guard_inv_reachable [where body = body, OF keeps free after_step.hyps(1)]
  have "guard_inv st" .
  then show ?case
    by (rule serial_inv_step [where body = body, OF keeps after_step.hyps(2) _ after_step.IH])
qed

lemma quiescent_is_sequential:
  assumes keeps: "\<And>c s. m_mutex (snd (body c s)) = m_mutex s"
    and free: "\<not> m_mutex s0" and r: "reachable body n s0 (s, pcs)" and "holders pcs = 0"
  shows "\<exists>cs. calls body cs s0 = Some s"
  using serial_inv_reachable [where body = body, OF keeps free r] assms(4)
  unfolding serial_inv_def by auto

lemma map_threads_sequential:
  assumes "\<not> m_mutex s0" and "reachable map_body n s0 (s, pcs)" and "holders pcs = 0"
  shows "\<exists>cs. calls map_body cs s0 = Some s"
  by (rule quiescent_is_sequential [where body = map_body, OF map_body_mutex assms])

lemma set_threads_sequential:
  assumes "\<not> m_mutex s0" and "reachable set_body n s0 (s, pcs)" and "holders pcs = 0"
  shows "\<exists>cs. calls set_body cs s0 = Some s"
  by (rule quiescent_is_sequential [where body = set_body, OF set_body_mutex assms])

section \<open>The store refines the lists\<close>

text \<open>Each body, call and call sequence over the store does to the accumulator object
  what the first model says, and returns the value it says.\<close>

lemma new_store_object: "owns new_store \<and> object_of new_store = new_map"
  by (simp add: owns_def object_of_def new_store_def new_map_def)

lemma st_map_body_refines:
  assumes "owns s" and "st_map_body c s = (r, s')"
  shows "map_body c (object_of s) = (value_of (tables s') r, object_of s') \<and> owns s'"
  using assms
  by (cases c)
     (auto simp: owns_def object_of_def insert_or_assign_body_def empty_map_body_def
        size_map_body_def consume_map_body_def um_move_def st_move_def nth_append)

lemma st_set_body_refines:
  assumes "owns s" and "st_set_body c s = (r, s')"
  shows "set_body c (object_of s) = (value_of (tables s') r, object_of s') \<and> owns s'"
  using assms
  by (cases c)
     (auto simp: owns_def object_of_def insert_body_def empty_set_body_def
        size_set_body_def consume_set_body_def us_move_def st_move_def nth_append)

lemma st_map_call_refines:
  assumes "owns s"
  shows "case lock_guard (st_map_body c) s of
           None \<Rightarrow> lock_guard (map_body c) (object_of s) = None
         | Some (r, s') \<Rightarrow>
             lock_guard (map_body c) (object_of s) = Some (value_of (tables s') r, object_of s')
             \<and> owns s'"
proof (cases "m_mutex s")
  case True
  then show ?thesis by (simp add: lock_guard_held object_of_def)
next
  case False
  obtain r s2 where b: "st_map_body c (s\<lparr>m_mutex := True\<rparr>) = (r, s2)"
    by (cases "st_map_body c (s\<lparr>m_mutex := True\<rparr>)")
  have o: "owns (s\<lparr>m_mutex := True\<rparr>)" using assms by (simp add: owns_def)
  have e: "object_of (s\<lparr>m_mutex := True\<rparr>) = (object_of s)\<lparr>m_mutex := True\<rparr>"
    by (simp add: object_of_def)
  from st_map_body_refines [OF o b] e
  have "map_body c ((object_of s)\<lparr>m_mutex := True\<rparr>) = (value_of (tables s2) r, object_of s2)"
    and "owns s2" by simp_all
  moreover have "\<not> m_mutex (object_of s)" using False by (simp add: object_of_def)
  ultimately show ?thesis using False b
    by (simp add: lock_guard_free unlock_def object_of_def owns_def)
qed

lemma st_map_calls_refines:
  "owns s \<Longrightarrow> map_option object_of (calls st_map_body cs s) = calls map_body cs (object_of s)"
proof (induction cs arbitrary: s)
  case Nil
  show ?case by simp
next
  case (Cons c cs)
  show ?case
  proof (cases "lock_guard (st_map_body c) s")
    case None
    with st_map_call_refines [OF Cons.prems, of c] show ?thesis by simp
  next
    case (Some a)
    obtain r s' where a: "a = (r, s')" by (cases a)
    with Some st_map_call_refines [OF Cons.prems, of c]
    have "lock_guard (map_body c) (object_of s) = Some (value_of (tables s') r, object_of s')"
      and "owns s'" by simp_all
    with Some a Cons.IH [of s'] show ?thesis by simp
  qed
qed

lemma st_set_call_refines:
  assumes "owns s"
  shows "case lock_guard (st_set_body c) s of
           None \<Rightarrow> lock_guard (set_body c) (object_of s) = None
         | Some (r, s') \<Rightarrow>
             lock_guard (set_body c) (object_of s) = Some (value_of (tables s') r, object_of s')
             \<and> owns s'"
proof (cases "m_mutex s")
  case True
  then show ?thesis by (simp add: lock_guard_held object_of_def)
next
  case False
  obtain r s2 where b: "st_set_body c (s\<lparr>m_mutex := True\<rparr>) = (r, s2)"
    by (cases "st_set_body c (s\<lparr>m_mutex := True\<rparr>)")
  have o: "owns (s\<lparr>m_mutex := True\<rparr>)" using assms by (simp add: owns_def)
  have e: "object_of (s\<lparr>m_mutex := True\<rparr>) = (object_of s)\<lparr>m_mutex := True\<rparr>"
    by (simp add: object_of_def)
  from st_set_body_refines [OF o b] e
  have "set_body c ((object_of s)\<lparr>m_mutex := True\<rparr>) = (value_of (tables s2) r, object_of s2)"
    and "owns s2" by simp_all
  moreover have "\<not> m_mutex (object_of s)" using False by (simp add: object_of_def)
  ultimately show ?thesis using False b
    by (simp add: lock_guard_free unlock_def object_of_def owns_def)
qed

lemma st_set_calls_refines:
  "owns s \<Longrightarrow> map_option object_of (calls st_set_body cs s) = calls set_body cs (object_of s)"
proof (induction cs arbitrary: s)
  case Nil
  show ?case by simp
next
  case (Cons c cs)
  show ?case
  proof (cases "lock_guard (st_set_body c) s")
    case None
    with st_set_call_refines [OF Cons.prems, of c] show ?thesis by simp
  next
    case (Some a)
    obtain r s' where a: "a = (r, s')" by (cases a)
    with Some st_set_call_refines [OF Cons.prems, of c]
    have "lock_guard (set_body c) (object_of s) = Some (value_of (tables s') r, object_of s')"
      and "owns s'" by simp_all
    with Some a Cons.IH [of s'] show ?thesis by simp
  qed
qed

section \<open>The returned container shares nothing with the accumulator\<close>

text \<open>\<^verbatim>\<open>consume\<close> leaves \<^verbatim>\<open>m_data\<close> with a node list of its own, apart from the one it
  returns; every later call keeps it apart and leaves the returned node list as it is.\<close>

lemma st_map_call_apart:
  assumes "apart p s"
  shows "\<exists>r s'. lock_guard (st_map_body c) s = Some (r, s') \<and> apart p s'
           \<and> tables s' ! p = tables s ! p"
  using assms
  by (cases c)
     (auto simp: apart_def lock_guard_free unlock_def st_move_def nth_append)

lemma st_set_call_apart:
  assumes "apart p s"
  shows "\<exists>r s'. lock_guard (st_set_body c) s = Some (r, s') \<and> apart p s'
           \<and> tables s' ! p = tables s ! p"
  using assms
  by (cases c)
     (auto simp: apart_def lock_guard_free unlock_def st_move_def nth_append)

lemma st_map_calls_apart:
  "apart p s \<Longrightarrow> \<exists>s'. calls st_map_body cs s = Some s' \<and> apart p s' \<and> tables s' ! p = tables s ! p"
proof (induction cs arbitrary: s)
  case Nil
  then show ?case by simp
next
  case (Cons c cs)
  from st_map_call_apart [OF Cons.prems, of c]
  obtain r s1 where s1: "lock_guard (st_map_body c) s = Some (r, s1)" "apart p s1"
      "tables s1 ! p = tables s ! p"
    by blast
  from Cons.IH [OF s1(2)]
  obtain s' where "calls st_map_body cs s1 = Some s'" "apart p s'" "tables s' ! p = tables s1 ! p"
    by blast
  with s1 show ?case by simp
qed

lemma st_set_calls_apart:
  "apart p s \<Longrightarrow> \<exists>s'. calls st_set_body cs s = Some s' \<and> apart p s' \<and> tables s' ! p = tables s ! p"
proof (induction cs arbitrary: s)
  case Nil
  then show ?case by simp
next
  case (Cons c cs)
  from st_set_call_apart [OF Cons.prems, of c]
  obtain r s1 where s1: "lock_guard (st_set_body c) s = Some (r, s1)" "apart p s1"
      "tables s1 ! p = tables s ! p"
    by blast
  from Cons.IH [OF s1(2)]
  obtain s' where "calls st_set_body cs s1 = Some s'" "apart p s'" "tables s' ! p = tables s1 ! p"
    by blast
  with s1 show ?case by simp
qed

lemma st_consume_map_apart:
  assumes "\<not> m_mutex s" and "owns s"
  shows "\<exists>s1. lock_guard (st_map_body ConsumeMap) s = Some (Container (m_data_ptr s), s1)
           \<and> apart (m_data_ptr s) s1 \<and> tables s1 ! m_data_ptr s = tables s ! m_data_ptr s"
  using assms
  by (simp add: lock_guard_free unlock_def st_move_def apart_def owns_def nth_append)

lemma st_consume_set_apart:
  assumes "\<not> m_mutex s" and "owns s"
  shows "\<exists>s1. lock_guard (st_set_body ConsumeSet) s = Some (Container (m_data_ptr s), s1)
           \<and> apart (m_data_ptr s) s1 \<and> tables s1 ! m_data_ptr s = tables s ! m_data_ptr s"
  using assms
  by (simp add: lock_guard_free unlock_def st_move_def apart_def owns_def nth_append)

text \<open>
  C4. On an accumulator whose guard is free: \<^verbatim>\<open>consume\<close> returns a container that holds
  what \<^verbatim>\<open>m_data\<close> held, and whose node list is not the one \<^verbatim>\<open>m_data\<close> has afterwards. Whatever
  calls are then made on the accumulator (\<^verbatim>\<open>insert_or_assign\<close> or \<^verbatim>\<open>insert\<close>, \<^verbatim>\<open>empty\<close>, \<^verbatim>\<open>size\<close>,
  further \<^verbatim>\<open>consume\<close>), they all return, the returned container holds the same entries
  after them as before, and \<^verbatim>\<open>m_data\<close> still has another node list. For both classes.
\<close>

theorem returned_container_not_shared:
  assumes "\<not> m_mutex s" and "owns s" and "\<not> m_mutex t" and "owns t"
  shows "(\<exists>p s1 s2. lock_guard (st_map_body ConsumeMap) s = Some (Container p, s1)
            \<and> tables s1 ! p = m_data (object_of s) \<and> m_data_ptr s1 \<noteq> p
            \<and> calls st_map_body cs s1 = Some s2
            \<and> tables s2 ! p = tables s1 ! p \<and> m_data_ptr s2 \<noteq> p)
       \<and> (\<exists>p t1 t2. lock_guard (st_set_body ConsumeSet) t = Some (Container p, t1)
            \<and> tables t1 ! p = m_data (object_of t) \<and> m_data_ptr t1 \<noteq> p
            \<and> calls st_set_body ds t1 = Some t2
            \<and> tables t2 ! p = tables t1 ! p \<and> m_data_ptr t2 \<noteq> p)"
proof
  from st_consume_map_apart [OF assms(1,2)]
  obtain s1 where s1: "lock_guard (st_map_body ConsumeMap) s = Some (Container (m_data_ptr s), s1)"
      "apart (m_data_ptr s) s1" "tables s1 ! m_data_ptr s = tables s ! m_data_ptr s"
    by blast
  from st_map_calls_apart [OF s1(2), of cs]
  obtain s2 where s2: "calls st_map_body cs s1 = Some s2" "apart (m_data_ptr s) s2"
      "tables s2 ! m_data_ptr s = tables s1 ! m_data_ptr s"
    by blast
  from s1 s2 show "\<exists>p s1 s2. lock_guard (st_map_body ConsumeMap) s = Some (Container p, s1)
            \<and> tables s1 ! p = m_data (object_of s) \<and> m_data_ptr s1 \<noteq> p
            \<and> calls st_map_body cs s1 = Some s2
            \<and> tables s2 ! p = tables s1 ! p \<and> m_data_ptr s2 \<noteq> p"
    by (auto simp: apart_def object_of_def)
next
  from st_consume_set_apart [OF assms(3,4)]
  obtain t1 where t1: "lock_guard (st_set_body ConsumeSet) t = Some (Container (m_data_ptr t), t1)"
      "apart (m_data_ptr t) t1" "tables t1 ! m_data_ptr t = tables t ! m_data_ptr t"
    by blast
  from st_set_calls_apart [OF t1(2), of ds]
  obtain t2 where t2: "calls st_set_body ds t1 = Some t2" "apart (m_data_ptr t) t2"
      "tables t2 ! m_data_ptr t = tables t1 ! m_data_ptr t"
    by blast
  from t1 t2 show "\<exists>p t1 t2. lock_guard (st_set_body ConsumeSet) t = Some (Container p, t1)
            \<and> tables t1 ! p = m_data (object_of t) \<and> m_data_ptr t1 \<noteq> p
            \<and> calls st_set_body ds t1 = Some t2
            \<and> tables t2 ! p = tables t1 ! p \<and> m_data_ptr t2 \<noteq> p"
    by (auto simp: apart_def object_of_def)
qed


theorem returned_container_not_shared_witness:
  "\<not> m_mutex \<lparr>m_mutex = False, m_data_ptr = 0, tables = [[(1::nat, True)]]\<rparr>
   \<and> owns \<lparr>m_mutex = False, m_data_ptr = 0, tables = [[(1::nat, True)]]\<rparr>
   \<and> \<not> m_mutex \<lparr>m_mutex = False, m_data_ptr = 1, tables = [[], [3::nat, 4]]\<rparr>
   \<and> owns \<lparr>m_mutex = False, m_data_ptr = 1, tables = [[], [3::nat, 4]]\<rparr>
   \<and> (\<exists>p s1 s2.
         lock_guard (st_map_body ConsumeMap) \<lparr>m_mutex = False, m_data_ptr = 0, tables = [[(1::nat, True)]]\<rparr>
           = Some (Container p, s1)
       \<and> tables s1 ! p = [(1, True)] \<and> m_data_ptr s1 \<noteq> p
       \<and> calls st_map_body [InsertOrAssign 2 False, ConsumeMap, InsertOrAssign 1 False, SizeMap] s1 = Some s2
       \<and> tables s2 ! p = tables s1 ! p \<and> m_data_ptr s2 \<noteq> p)
   \<and> (\<exists>p t1 t2.
         lock_guard (st_set_body ConsumeSet) \<lparr>m_mutex = False, m_data_ptr = 1, tables = [[], [3::nat, 4]]\<rparr>
           = Some (Container p, t1)
       \<and> tables t1 ! p = [3, 4] \<and> m_data_ptr t1 \<noteq> p
       \<and> calls st_set_body [Insert 5, EmptySet, ConsumeSet, Insert 3] t1 = Some t2
       \<and> tables t2 ! p = tables t1 ! p \<and> m_data_ptr t2 \<noteq> p)"
  using returned_container_not_shared
    [of "\<lparr>m_mutex = False, m_data_ptr = 0, tables = [[(1::nat, True)]]\<rparr>"
        "\<lparr>m_mutex = False, m_data_ptr = 1, tables = [[], [3::nat, 4]]\<rparr>"
        "[InsertOrAssign 2 False, ConsumeMap, InsertOrAssign 1 False, SizeMap]"
        "[Insert 5, EmptySet, ConsumeSet, Insert 3]"]
  by (simp add: owns_def object_of_def)

end
